theory Spec2Isabelle
  imports Main
begin

section \<open>Tag invalidation of the multi cache: runtime/serverHandler/api/purgeTags.ts\<close>

subsection \<open>Values, errors and cache backends\<close>

text \<open>
  The request body as \<open>readBody\<close> hands it over. \<open>getTagsToPurge\<close> types an array
  body as \<open>string[]\<close>, so an array carries strings.
\<close>

datatype body =
    Undefined
  | Null
  | Boolean bool
  | Number int
  | String string
  | Array "string list"
  | Record "(string \<times> string) list"

text \<open>
  \<open>H3Error code message\<close> is what \<open>createError\<close> builds; \<open>StorageError\<close> is the
  rejection of a cache backend's promise.
\<close>

datatype error = H3Error nat string | StorageError string

text \<open>
  A stored cache item: a value that is not an object (\<open>Plain\<close>), or an object that has
  no \<open>cacheTags\<close> property (\<open>Object None\<close>) or has one (\<open>Object (Some tags)\<close>).
\<close>

datatype item = Plain string | Object "string list option"

text \<open>
  A cache is used through \<open>getKeys\<close>, \<open>getItem\<close> and \<open>removeItem\<close> only. Its
  content is an association list, in the order in which the keys are listed. Each of
  the three calls may reject: \<open>getKeys_rejects\<close> says whether listing the keys does,
  \<open>getItem_rejects\<close> and \<open>removeItem_rejects\<close> list the keys whose read and whose
  removal do.
\<close>

record backend =
  entries :: "(string \<times> item) list"
  getKeys_rejects :: bool
  getItem_rejects :: "string list"
  removeItem_rejects :: "string list"

definition getKeys :: "backend \<Rightarrow> error + string list" where
  "getKeys b =
     (if getKeys_rejects b then Inl (StorageError ''getKeys'')
      else Inr (map fst (entries b)))"

definition getItem :: "backend \<Rightarrow> string \<Rightarrow> error + item option" where
  "getItem b k =
     (if k \<in> set (getItem_rejects b) then Inl (StorageError ''getItem'')
      else Inr (map_of (entries b) k))"

definition removeItem :: "backend \<Rightarrow> string \<Rightarrow> error + backend" where
  "removeItem b k =
     (if k \<in> set (removeItem_rejects b) then Inl (StorageError ''removeItem'')
      else Inr (b\<lparr>entries := filter (\<lambda>e. fst e \<noteq> k) (entries b)\<rparr>))"

text \<open>
  \<open>NuxtMultiCacheSSRContext\<close>: an object whose properties are the caches, each of
  them possibly undefined. \<open>for (key in this.cacheContext)\<close> walks the properties in
  their order.
\<close>

type_synonym cache_context = "(string \<times> backend option) list"

text \<open>The calls a sweep makes on the caches, each with the property name of the cache.\<close>

datatype storage_call =
    GetKeys string
  | GetItem string string
  | RemoveItem string string

subsection \<open>getTagsToPurge and onlyUnique\<close>

text \<open>
  What the handler reads of an event: the outcome of \<open>checkAuth\<close> (\<open>None\<close> when it
  passes), the router parameters, the body, and what \<open>getMultiCacheContext\<close> returns for
  it (a reference to a context object, or undefined).
\<close>

record h3event =
  auth :: "error option"
  params :: "(string \<times> string) list"
  payload :: body
  multiCacheContext :: "nat option"

definition getTagsToPurge :: "h3event \<Rightarrow> error + string list" where
  "getTagsToPurge event =
     (case payload event of
        Array ts \<Rightarrow> Inr ts
      | _ \<Rightarrow> Inl (H3Error 400 ''No valid tags provided.''))"

text \<open>\<open>Array.prototype.indexOf\<close>: the first index of the value, or -1.\<close>

fun indexOf :: "string list \<Rightarrow> string \<Rightarrow> int" where
  "indexOf [] v = - 1"
| "indexOf (x # xs) v =
     (if x = v then 0
      else (let i = indexOf xs v in if i = - 1 then - 1 else i + 1))"

definition onlyUnique :: "string \<Rightarrow> nat \<Rightarrow> string list \<Rightarrow> bool" where
  "onlyUnique v index self = (indexOf self v = int index)"

text \<open>\<open>Array.prototype.filter\<close>, whose callback receives the value, its index and the array.\<close>

definition filter_js :: "(string \<Rightarrow> nat \<Rightarrow> string list \<Rightarrow> bool) \<Rightarrow> string list \<Rightarrow> string list" where
  "filter_js cb xs = map fst (filter (\<lambda>(v, i). cb v i xs) (zip xs [0..<length xs]))"

subsection \<open>The invalidator and the runtime it lives in\<close>

datatype timer = Timeout nat

record DebouncedInvalidator =
  tags :: "string list"
  delay :: "nat option"
  timeout :: "timer option"
  cacheContext :: "nat option"

text \<open>
  The constructor sets \<open>tags\<close> and \<open>timeout\<close>; \<open>delay\<close> and \<open>cacheContext\<close> stay
  undefined.
\<close>

definition new_invalidator :: DebouncedInvalidator where
  "new_invalidator = \<lparr>tags = [], delay = None, timeout = None, cacheContext = None\<rparr>"

text \<open>What one run of \<open>invalidate\<close> did: it returned at the context check, or it swept
  with the drained tags, made these calls, and resolved (\<open>None\<close>) or rejected.\<close>

datatype sweep_result =
    Skipped
  | Swept "string list" "storage_call list" "error option"

text \<open>
  The process: the clock in milliseconds, the timers that are armed and have not fired
  (handle and due time), the next timer id, the context objects by reference, the module
  configuration (\<open>api.cacheTagInvalidationDelay\<close>, which may be unset, and the constant
  \<open>DEFAULT_CACHE_TAG_INVALIDATION_DELAY\<close> of the settings), the one invalidator instance,
  and a journal of the timer callbacks that ran, each with its time and what it did.
\<close>

record world =
  clock :: nat
  timers :: "(timer \<times> nat) list"
  next_id :: nat
  heap :: "nat \<Rightarrow> cache_context"
  cacheTagInvalidationDelay :: "nat option"
  default_delay :: nat
  invalidator :: DebouncedInvalidator
  journal :: "(nat \<times> sweep_result) list"

text \<open>
  \<open>setTimeout\<close> of Node: a delay that is missing, below 1 or above 2147483647 counts
  as 1 millisecond. The returned handle is an object, hence never falsy.
\<close>

definition timeout_ms :: "nat option \<Rightarrow> nat" where
  "timeout_ms d =
     (case d of None \<Rightarrow> 1 | Some n \<Rightarrow> if n < 1 \<or> 2147483647 < n then 1 else n)"

definition setTimeout :: "nat option \<Rightarrow> world \<Rightarrow> timer \<times> world" where
  "setTimeout d w =
     (Timeout (next_id w),
      w\<lparr>timers := timers w @ [(Timeout (next_id w), clock w + timeout_ms d)],
        next_id := Suc (next_id w)\<rparr>)"

subsection \<open>DebouncedInvalidator.add\<close>

definition push_tag :: "string \<Rightarrow> string list \<Rightarrow> string list" where
  "push_tag tag buf = (if tag \<in> set buf then buf else buf @ [tag])"

definition add :: "string list \<Rightarrow> world \<Rightarrow> world" where
  "add ts w =
     (let w1 = w\<lparr>invalidator := (invalidator w)\<lparr>tags := fold push_tag ts (tags (invalidator w))\<rparr>\<rparr>
      in if timeout (invalidator w1) = None
         then (case setTimeout (delay (invalidator w1)) w1 of
                 (h, w2) \<Rightarrow> w2\<lparr>invalidator := (invalidator w2)\<lparr>timeout := Some h\<rparr>\<rparr>)
         else w1)"

subsection \<open>DebouncedInvalidator.invalidate\<close>

definition shouldPurge :: "string list \<Rightarrow> string list \<Rightarrow> bool" where
  "shouldPurge ts itemCacheTags = list_ex (\<lambda>v. v \<in> set ts) itemCacheTags"

text \<open>The body of the loop over the keys of one cache.\<close>

definition purge_item ::
  "string list \<Rightarrow> string \<Rightarrow> string \<Rightarrow> backend \<Rightarrow> storage_call list \<times> backend \<times> error option" where
  "purge_item ts name k b =
     (case getItem b k of
        Inl e \<Rightarrow> ([GetItem name k], b, Some e)
      | Inr (Some (Object (Some itemCacheTags))) \<Rightarrow>
          (if shouldPurge ts itemCacheTags
           then (case removeItem b k of
                   Inl e \<Rightarrow> ([GetItem name k, RemoveItem name k], b, Some e)
                 | Inr b' \<Rightarrow> ([GetItem name k, RemoveItem name k], b', None))
           else ([GetItem name k], b, None))
      | Inr _ \<Rightarrow> ([GetItem name k], b, None))"

fun sweep_keys ::
  "string list \<Rightarrow> string \<Rightarrow> string list \<Rightarrow> backend \<Rightarrow> storage_call list \<times> backend \<times> error option" where
  "sweep_keys ts name [] b = ([], b, None)"
| "sweep_keys ts name (k # ks) b =
     (case purge_item ts name k b of
        (c1, b1, Some e) \<Rightarrow> (c1, b1, Some e)
      | (c1, b1, None) \<Rightarrow>
          (case sweep_keys ts name ks b1 of (c2, b2, r) \<Rightarrow> (c1 @ c2, b2, r)))"

text \<open>The body of the loop over the caches of the context.\<close>

definition sweep_cache ::
  "string list \<Rightarrow> string \<Rightarrow> backend option \<Rightarrow> storage_call list \<times> backend option \<times> error option" where
  "sweep_cache ts name cache =
     (case cache of
        None \<Rightarrow> ([], None, None)
      | Some b \<Rightarrow>
          (case getKeys b of
             Inl e \<Rightarrow> ([GetKeys name], Some b, Some e)
           | Inr cacheItemKeys \<Rightarrow>
               (case sweep_keys ts name cacheItemKeys b of
                  (c, b', r) \<Rightarrow> (GetKeys name # c, Some b', r))))"

fun sweep_context ::
  "string list \<Rightarrow> cache_context \<Rightarrow> storage_call list \<times> cache_context \<times> error option" where
  "sweep_context ts [] = ([], [], None)"
| "sweep_context ts ((name, cache) # rest) =
     (case sweep_cache ts name cache of
        (c1, cache', Some e) \<Rightarrow> (c1, (name, cache') # rest, Some e)
      | (c1, cache', None) \<Rightarrow>
          (case sweep_context ts rest of
             (c2, rest', r) \<Rightarrow> (c1 @ c2, (name, cache') # rest', r)))"

definition invalidate :: "world \<Rightarrow> world \<times> sweep_result" where
  "invalidate w =
     (case cacheContext (invalidator w) of
        None \<Rightarrow> (w, Skipped)
      | Some r \<Rightarrow>
          (let ts = filter_js onlyUnique (tags (invalidator w));
               w1 = w\<lparr>invalidator := (invalidator w)\<lparr>tags := [], timeout := None\<rparr>\<rparr>
           in (case sweep_context ts (heap w1 r) of
                 (calls, ctx', res) \<Rightarrow>
                   (w1\<lparr>heap := (heap w1)(r := ctx')\<rparr>, Swept ts calls res))))"

subsection \<open>The request handler\<close>

datatype response = Response string "string list"

definition purgeTags :: "h3event \<Rightarrow> world \<Rightarrow> (error + response) \<times> world" where
  "purgeTags event w =
     (case auth event of
        Some e \<Rightarrow> (Inl e, w)
      | None \<Rightarrow>
          (case getTagsToPurge event of
             Inl e \<Rightarrow> (Inl e, w)
           | Inr ts \<Rightarrow>
               (let w1 =
                      (if cacheContext (invalidator w) = None
                       then w\<lparr>invalidator := (invalidator w)
                              \<lparr>cacheContext := multiCacheContext event,
                               delay := Some (case cacheTagInvalidationDelay w of
                                                None \<Rightarrow> default_delay w
                                              | Some d \<Rightarrow> if d = 0 then default_delay w else d)\<rparr>\<rparr>
                       else w)
                in (Inr (Response ''OK'' ts), add ts w1))))"

subsection \<open>Timers firing, and runs of the process\<close>

text \<open>
  The callback given to \<open>setTimeout\<close> calls \<open>invalidate\<close> and drops its promise.
  A run of \<open>invalidate\<close> is taken as one step: no request is served between two of
  its awaits.
\<close>

definition timer_callback :: "nat \<Rightarrow> world \<Rightarrow> world" where
  "timer_callback t w =
     (case invalidate (w\<lparr>clock := t\<rparr>) of
        (w', res) \<Rightarrow> w'\<lparr>journal := journal w' @ [(t, res)]\<rparr>)"

text \<open>
  Time passes: each timer that comes due fires at its due time, the earliest first, and
  is gone from the armed timers.
\<close>

definition elapse :: "nat \<Rightarrow> world \<Rightarrow> world" where
  "elapse n w =
     (let t = clock w + n;
          due = sort_key snd (filter (\<lambda>e. snd e \<le> t) (timers w));
          w1 = w\<lparr>timers := filter (\<lambda>e. \<not> snd e \<le> t) (timers w)\<rparr>
      in (fold (\<lambda>e. timer_callback (snd e)) due w1)\<lparr>clock := t\<rparr>)"

datatype event = Add "string list" | Request h3event | Elapse nat

fun step :: "event \<Rightarrow> world \<Rightarrow> world" where
  "step (Add ts) w = add ts w"
| "step (Request ev) w = snd (purgeTags ev w)"
| "step (Elapse n) w = elapse n w"

definition run :: "event list \<Rightarrow> world \<Rightarrow> world" where
  "run evs w = fold step evs w"

text \<open>The process at start: nothing armed, the module's invalidator freshly constructed.\<close>

definition boot :: "(nat \<Rightarrow> cache_context) \<Rightarrow> nat option \<Rightarrow> nat \<Rightarrow> world" where
  "boot h cfg dflt =
     \<lparr>clock = 0, timers = [], next_id = 0, heap = h,
      cacheTagInvalidationDelay = cfg, default_delay = dflt,
      invalidator = new_invalidator, journal = []\<rparr>"

subsection \<open>Auxiliary notions for the statements\<close>

text \<open>The two tests of the sweep on what \<open>getItem\<close> returned, as one condition.\<close>

definition purges :: "string list \<Rightarrow> item option \<Rightarrow> bool" where
  "purges ts io =
     (case io of Some (Object (Some itemCacheTags)) \<Rightarrow> shouldPurge ts itemCacheTags | _ \<Rightarrow> False)"

text \<open>The tags an event hands to \<open>add\<close>, and the time an event lets pass.\<close>

fun added :: "event \<Rightarrow> string list" where
  "added (Add ts) = ts"
| "added (Request ev) =
     (case auth ev of
        Some e \<Rightarrow> []
      | None \<Rightarrow> (case getTagsToPurge ev of Inl e \<Rightarrow> [] | Inr ts \<Rightarrow> ts))"
| "added (Elapse n) = []"

fun elapsed :: "event list \<Rightarrow> nat" where
  "elapsed [] = 0"
| "elapsed (Elapse n # evs) = n + elapsed evs"
| "elapsed (e # evs) = elapsed evs"

text \<open>
  A cache after a sweep with tags \<open>ts\<close> that met no rejection: every entry whose key
  reads as an item to purge is gone.
\<close>

definition swept :: "string list \<Rightarrow> backend \<Rightarrow> backend" where
  "swept ts b = b\<lparr>entries := filter (\<lambda>e. \<not> purges ts (map_of (entries b) (fst e))) (entries b)\<rparr>"

definition slot_swept :: "string list \<Rightarrow> string \<times> backend option \<Rightarrow> string \<times> backend option \<Rightarrow> bool" where
  "slot_swept ts s s' \<longleftrightarrow>
     fst s' = fst s \<and>
     (case snd s of
        None \<Rightarrow> snd s' = None
      | Some b \<Rightarrow> snd s' = Some (swept ts b) \<and> fst ` set (entries b) \<inter> set (getItem_rejects b) = {})"

text \<open>\<open>b'\<close> is \<open>b\<close> with all entries of some keys removed.\<close>

definition shrunk :: "backend \<Rightarrow> backend \<Rightarrow> bool" where
  "shrunk b b' \<longleftrightarrow>
     (\<exists>D. b' = b\<lparr>entries := filter (\<lambda>e. fst e \<notin> D) (entries b)\<rparr>)"

text \<open>
  \<open>b'\<close> is \<open>b\<close> with all entries of some keys removed, each of them a key whose read
  did not reject and returned an item to purge.
\<close>

definition pruned :: "string list \<Rightarrow> backend \<Rightarrow> backend \<Rightarrow> bool" where
  "pruned ts b b' \<longleftrightarrow>
     shrunk b b' \<and>
     (\<forall>k. map_of (entries b) k \<noteq> None \<longrightarrow> map_of (entries b') k = None \<longrightarrow>
          k \<notin> set (getItem_rejects b) \<and> purges ts (map_of (entries b) k))"

definition slot_pruned :: "string list \<Rightarrow> string \<times> backend option \<Rightarrow> string \<times> backend option \<Rightarrow> bool" where
  "slot_pruned ts s s' \<longleftrightarrow>
     fst s' = fst s \<and>
     (case snd s of None \<Rightarrow> snd s' = None | Some b \<Rightarrow> (\<exists>b'. snd s' = Some b' \<and> pruned ts b b'))"


text \<open>The world in which an accepted request calls \<open>add\<close>.\<close>

definition with_context :: "h3event \<Rightarrow> world \<Rightarrow> world" where
  "with_context ev w =
     (if cacheContext (invalidator w) = None
      then w\<lparr>invalidator := (invalidator w)
             \<lparr>cacheContext := multiCacheContext ev,
              delay := Some (case cacheTagInvalidationDelay w of
                               None \<Rightarrow> default_delay w
                             | Some d \<Rightarrow> if d = 0 then default_delay w else d)\<rparr>\<rparr>
      else w)"


subsection \<open>Example caches and processes\<close>

definition cache_a :: backend where
  "cache_a =
     \<lparr>entries = [(''k1'', Object (Some [''t1'', ''t2''])), (''k2'', Object (Some [''t3'']))],
      getKeys_rejects = False, getItem_rejects = [], removeItem_rejects = []\<rparr>"

definition cache_b :: backend where
  "cache_b =
     \<lparr>entries = [(''k3'', Object (Some [''t1''])), (''k4'', Plain ''page'')],
      getKeys_rejects = False, getItem_rejects = [], removeItem_rejects = []\<rparr>"

definition example_heap :: "nat \<Rightarrow> cache_context" where
  "example_heap = (\<lambda>r. if r = 0 then [(''data'', Some cache_a), (''route'', Some cache_b)] else [])"

definition example_world :: world where
  "example_world = boot example_heap None 60000"

text \<open>A cache whose read of \<open>k1\<close> rejects.\<close>

definition cache_failing :: backend where
  "cache_failing = cache_a\<lparr>getItem_rejects := [''k1'']\<rparr>"

definition failing_heap :: "nat \<Rightarrow> cache_context" where
  "failing_heap = (\<lambda>r. if r = 0 then [(''data'', Some cache_failing), (''route'', Some cache_b)] else [])"

text \<open>A cache whose removal of \<open>k1\<close> rejects.\<close>

definition cache_locked :: backend where
  "cache_locked = cache_a\<lparr>removeItem_rejects := [''k1'']\<rparr>"

definition locked_heap :: "nat \<Rightarrow> cache_context" where
  "locked_heap = (\<lambda>r. if r = 0 then [(''data'', Some cache_locked), (''route'', Some cache_b)] else [])"

definition request_t1 :: h3event where
  "request_t1 = \<lparr>auth = None, params = [], payload = Array [''t1''], multiCacheContext = Some 0\<rparr>"

definition request_t1_t3 :: h3event where
  "request_t1_t3 =
     \<lparr>auth = None, params = [], payload = Array [''t1'', ''t3''], multiCacheContext = Some 0\<rparr>"

definition request_empty :: h3event where
  "request_empty = \<lparr>auth = None, params = [], payload = Array [], multiCacheContext = Some 0\<rparr>"

definition request_null :: h3event where
  "request_null = \<lparr>auth = None, params = [], payload = Null, multiCacheContext = Some 0\<rparr>"

definition request_single :: h3event where
  "request_single =
     \<lparr>auth = None, params = [(''tag'', ''t1'')], payload = String ''t1'', multiCacheContext = Some 0\<rparr>"

definition request_param_only :: h3event where
  "request_param_only =
     \<lparr>auth = None, params = [(''tag'', ''t1'')], payload = Undefined, multiCacheContext = Some 0\<rparr>"

definition request_no_context :: h3event where
  "request_no_context = \<lparr>auth = None, params = [], payload = Array [''t1''], multiCacheContext = None\<rparr>"

text \<open>The process after one accepted request, its timer armed and the context set.\<close>

definition world_t1 :: world where
  "world_t1 = snd (purgeTags request_t1 example_world)"

definition locked_world :: world where
  "locked_world = snd (purgeTags request_t1 (boot locked_heap None 60000))"

definition failing_world :: world where
  "failing_world = snd (purgeTags request_t1_t3 (boot failing_heap None 60000))"

text \<open>
  The process after a request that found no context, and after the timer of that request
  has fired.
\<close>

definition waiting_world :: world where
  "waiting_world = snd (purgeTags request_no_context example_world)"

definition stale_world :: world where
  "stale_world = run [Request request_no_context, Elapse 60000] example_world"

section \<open>Properties\<close>

subsection \<open>The buffer: onlyUnique and push\<close>

lemma indexOf_iff:
  "indexOf xs v = int i \<longleftrightarrow> i < length xs \<and> xs ! i = v \<and> v \<notin> set (take i xs)"
proof (induction xs arbitrary: i)
  case Nil
  then show ?case by simp
next
  case (Cons x xs)
  show ?case
  proof (cases i)
    case 0
    then show ?thesis by (auto simp: Let_def)
  next
    case (Suc j)
    have "indexOf xs v + 1 = int (Suc j) \<longleftrightarrow> indexOf xs v = int j"
      by auto
    with Cons.IH [of j] Suc show ?thesis
      by (auto simp: Let_def)
  qed
qed

lemma filter_js_onlyUnique_first:
  "filter_js onlyUnique xs =
     map fst (filter (\<lambda>(v, i). v \<notin> set (take i xs)) (zip xs [0..<length xs]))"
proof -
  have "filter (\<lambda>(v, i). onlyUnique v i xs) (zip xs [0..<length xs]) =
        filter (\<lambda>(v, i). v \<notin> set (take i xs)) (zip xs [0..<length xs])"
  proof (rule filter_cong [OF refl])
    fix p assume "p \<in> set (zip xs [0..<length xs])"
    then obtain n where "n < length xs" "p = (xs ! n, n)"
      by (auto simp: set_zip)
    then show "(case p of (v, i) \<Rightarrow> onlyUnique v i xs) = (case p of (v, i) \<Rightarrow> v \<notin> set (take i xs))"
      by (simp add: onlyUnique_def indexOf_iff)
  qed
  then show ?thesis
    by (simp add: filter_js_def)
qed

lemma filter_js_onlyUnique_snoc:
  "filter_js onlyUnique (xs @ [x]) =
     filter_js onlyUnique xs @ (if x \<in> set xs then [] else [x])"
proof -
  have z: "zip (xs @ [x]) [0..<length (xs @ [x])] = zip xs [0..<length xs] @ [(x, length xs)]"
    by simp
  have "filter (\<lambda>(v, i). v \<notin> set (take i (xs @ [x]))) (zip xs [0..<length xs]) =
        filter (\<lambda>(v, i). v \<notin> set (take i xs)) (zip xs [0..<length xs])"
  proof (rule filter_cong [OF refl])
    fix p assume "p \<in> set (zip xs [0..<length xs])"
    then obtain n where "n < length xs" "p = (xs ! n, n)"
      by (auto simp: set_zip)
    then show "(case p of (v, i) \<Rightarrow> v \<notin> set (take i (xs @ [x]))) =
               (case p of (v, i) \<Rightarrow> v \<notin> set (take i xs))"
      by simp
  qed
  then show ?thesis
    unfolding filter_js_onlyUnique_first z by simp
qed

lemma filter_js_onlyUnique_Nil: "filter_js onlyUnique [] = []"
  by (simp add: filter_js_def)

lemma set_filter_js_onlyUnique: "set (filter_js onlyUnique xs) = set xs"
  by (induction xs rule: rev_induct)
     (auto simp: filter_js_onlyUnique_Nil filter_js_onlyUnique_snoc)


lemma filter_js_onlyUnique_distinct: "distinct xs \<Longrightarrow> filter_js onlyUnique xs = xs"
  by (induction xs rule: rev_induct)
     (auto simp: filter_js_onlyUnique_Nil filter_js_onlyUnique_snoc)



subsection \<open>A sweep that meets no rejection\<close>

lemma shouldPurge_iff: "shouldPurge ts xs \<longleftrightarrow> set xs \<inter> set ts \<noteq> {}"
  by (auto simp: shouldPurge_def list_ex_iff)

lemma purges_iff:
  "purges ts io \<longleftrightarrow> (\<exists>xs. io = Some (Object (Some xs)) \<and> set xs \<inter> set ts \<noteq> {})"
  by (auto simp: purges_def shouldPurge_iff split: option.splits item.splits)

lemma purge_item_alt:
  "purge_item ts name k b =
     (case getItem b k of
        Inl e \<Rightarrow> ([GetItem name k], b, Some e)
      | Inr io \<Rightarrow>
          (if purges ts io
           then (case removeItem b k of
                   Inl e \<Rightarrow> ([GetItem name k, RemoveItem name k], b, Some e)
                 | Inr b' \<Rightarrow> ([GetItem name k, RemoveItem name k], b', None))
           else ([GetItem name k], b, None)))"
  by (simp add: purge_item_def purges_def split: sum.splits option.splits item.splits)

lemma map_of_filter_fst:
  "map_of (filter (\<lambda>e. P (fst e)) xs) k = (if P k then map_of xs k else None)"
  by (induction xs) auto

lemma entries_twice:
  "b1 = b\<lparr>entries := X\<rparr> \<Longrightarrow> b' = b1\<lparr>entries := Y\<rparr> \<Longrightarrow> b' = b\<lparr>entries := entries b'\<rparr>"
  by simp

text \<open>What a visit of one key that does not fail does to the cache.\<close>

lemma purge_item_ok:
  assumes "purge_item ts name k b = (c, b', None)"
  shows "k \<notin> set (getItem_rejects b)"
    and "b' = b\<lparr>entries := filter (\<lambda>e. \<not> (fst e = k \<and> purges ts (map_of (entries b) k))) (entries b)\<rparr>"
  using assms
  by (auto simp: purge_item_alt getItem_def removeItem_def split: if_splits)

lemma purge_item_fail:
  assumes "purge_item ts name k b = (c, b', Some e)"
  shows "b' = b"
  using assms
  by (auto simp: purge_item_alt getItem_def removeItem_def split: if_splits)

lemma sweep_keys_ok:
  "sweep_keys ts name ks b = (c, b', None) \<Longrightarrow>
     set ks \<inter> set (getItem_rejects b) = {} \<and>
     b' = b\<lparr>entries :=
            filter (\<lambda>e. \<not> (fst e \<in> set ks \<and> purges ts (map_of (entries b) (fst e)))) (entries b)\<rparr>"
proof (induction ks arbitrary: b c)
  case Nil
  then show ?case by simp
next
  case (Cons k ks)
  obtain c1 b1 r1 where p: "purge_item ts name k b = (c1, b1, r1)"
    by (cases "purge_item ts name k b") auto
  with Cons.prems have r1: "r1 = None"
    by (cases r1) auto
  obtain c2 b2 r2 where s: "sweep_keys ts name ks b1 = (c2, b2, r2)"
    by (cases "sweep_keys ts name ks b1") auto
  from Cons.prems p r1 s have eq: "b2 = b'" "r2 = None"
    by auto
  note k = purge_item_ok [OF p [unfolded r1]]
  from Cons.IH [OF s [unfolded eq]] have
    ih1: "set ks \<inter> set (getItem_rejects b1) = {}" and
    ih2: "b' = b1\<lparr>entries :=
            filter (\<lambda>e. \<not> (fst e \<in> set ks \<and> purges ts (map_of (entries b1) (fst e)))) (entries b1)\<rparr>"
    by auto
  have rej: "getItem_rejects b1 = getItem_rejects b"
    by (subst k(2)) simp
  have ent: "entries b1 = filter (\<lambda>e. \<not> (fst e = k \<and> purges ts (map_of (entries b) k))) (entries b)"
    by (subst k(2)) simp
  have look: "map_of (entries b1) x = (if x = k \<and> purges ts (map_of (entries b) k) then None else map_of (entries b) x)" for x
    unfolding ent using map_of_filter_fst [of "\<lambda>x. \<not> (x = k \<and> purges ts (map_of (entries b) k))" "entries b" x]
    by simp
  have none: "\<not> purges ts None"
    by (simp add: purges_def)
  have "entries b' =
      filter (\<lambda>e. \<not> (fst e \<in> set ks \<and> purges ts (map_of (entries b1) (fst e)))) (entries b1)"
    by (subst ih2) simp
  also have "\<dots> = filter (\<lambda>e. \<not> (fst e \<in> set ks \<and>
        purges ts (if fst e = k \<and> purges ts (map_of (entries b) k) then None
                   else map_of (entries b) (fst e)))) (entries b1)"
    by (simp only: look)
  also have "\<dots> =
      filter (\<lambda>e. \<not> (fst e \<in> set (k # ks) \<and> purges ts (map_of (entries b) (fst e)))) (entries b)"
    unfolding ent filter_filter by (rule filter_cong) (auto simp: none)
  finally have "entries b' =
      filter (\<lambda>e. \<not> (fst e \<in> set (k # ks) \<and> purges ts (map_of (entries b) (fst e)))) (entries b)" .
  moreover have "b' = b\<lparr>entries := entries b'\<rparr>"
    by (rule entries_twice [OF k(2) ih2])
  ultimately show ?case
    using ih1 k(1) rej by auto
qed


lemma sweep_cache_ok:
  assumes "sweep_cache ts name (Some b) = (c, cache', None)"
  shows "cache' = Some (swept ts b)"
    and "fst ` set (entries b) \<inter> set (getItem_rejects b) = {}"
proof -
  from assms have g: "getKeys b = Inr (map fst (entries b))"
    by (auto simp: sweep_cache_def getKeys_def split: if_splits)
  obtain c2 b2 r2 where s: "sweep_keys ts name (map fst (entries b)) b = (c2, b2, r2)"
    by (cases "sweep_keys ts name (map fst (entries b)) b") auto
  from assms g s have eq: "cache' = Some b2" "r2 = None"
    by (auto simp: sweep_cache_def)
  from sweep_keys_ok [OF s [unfolded eq(2)]] have
    a: "set (map fst (entries b)) \<inter> set (getItem_rejects b) = {}" and
    b2: "b2 = b\<lparr>entries :=
            filter (\<lambda>e. \<not> (fst e \<in> set (map fst (entries b)) \<and> purges ts (map_of (entries b) (fst e)))) (entries b)\<rparr>"
    by auto
  have "filter (\<lambda>e. \<not> (fst e \<in> set (map fst (entries b)) \<and> purges ts (map_of (entries b) (fst e)))) (entries b)
      = filter (\<lambda>e. \<not> purges ts (map_of (entries b) (fst e))) (entries b)"
    by (rule filter_cong) auto
  with b2 show "cache' = Some (swept ts b)"
    by (simp add: eq swept_def)
  from a show "fst ` set (entries b) \<inter> set (getItem_rejects b) = {}"
    by simp
qed

lemma sweep_cache_None: "sweep_cache ts name None = ([], None, None)"
  by (simp add: sweep_cache_def)

lemma sweep_context_ok:
  "sweep_context ts ctx = (c, ctx', None) \<Longrightarrow> list_all2 (slot_swept ts) ctx ctx'"
proof (induction ctx arbitrary: c ctx')
  case Nil
  then show ?case by simp
next
  case (Cons s ctx)
  obtain name cache where s: "s = (name, cache)"
    by (cases s)
  obtain c1 cache1 r1 where a: "sweep_cache ts name cache = (c1, cache1, r1)"
    by (cases "sweep_cache ts name cache") auto
  with Cons.prems s have r1: "r1 = None"
    by (cases r1) auto
  obtain c2 rest r2 where b: "sweep_context ts ctx = (c2, rest, r2)"
    by (cases "sweep_context ts ctx") auto
  from Cons.prems s a r1 b have eq: "ctx' = (name, cache1) # rest" "r2 = None"
    by auto
  have "slot_swept ts (name, cache) (name, cache1)"
  proof (cases cache)
    case None
    with a show ?thesis
      by (simp add: sweep_cache_None slot_swept_def)
  next
    case (Some b0)
    with sweep_cache_ok [of ts name b0 c1 cache1] a r1 show ?thesis
      by (simp add: slot_swept_def)
  qed
  with Cons.IH [OF b [unfolded eq(2)]] show ?case
    by (simp add: eq s)
qed

lemma map_of_swept:
  "map_of (entries (swept ts b)) k =
     (if purges ts (map_of (entries b) k) then None else map_of (entries b) k)"
  using map_of_filter_fst [of "\<lambda>k. \<not> purges ts (map_of (entries b) k)" "entries b" k]
  by (simp add: swept_def)

subsection \<open>A sweep that meets a rejection\<close>

lemma sweep_keys_append:
  "sweep_keys ts name (ks1 @ ks2) b =
     (case sweep_keys ts name ks1 b of
        (c1, b1, Some e) \<Rightarrow> (c1, b1, Some e)
      | (c1, b1, None) \<Rightarrow>
          (case sweep_keys ts name ks2 b1 of (c2, b2, r) \<Rightarrow> (c1 @ c2, b2, r)))"
proof (induction ks1 arbitrary: b)
  case Nil
  then show ?case by (simp split: prod.splits)
next
  case (Cons k ks1)
  show ?case
    by (simp add: Cons.IH split: prod.splits option.splits)
qed

lemma sweep_keys_stops:
  assumes "sweep_keys ts name ks1 b = (c1, b1, None)"
    and "purge_item ts name k b1 = (c2, b2, Some e)"
  shows "sweep_keys ts name (ks1 @ k # ks2) b = (c1 @ c2, b1, Some e)"
  using assms purge_item_fail [OF assms(2)]
  by (simp add: sweep_keys_append)

lemma sweep_context_append:
  "sweep_context ts (pre @ post) =
     (case sweep_context ts pre of
        (c1, pre', Some e) \<Rightarrow> (c1, pre' @ post, Some e)
      | (c1, pre', None) \<Rightarrow>
          (case sweep_context ts post of (c2, post', r) \<Rightarrow> (c1 @ c2, pre' @ post', r)))"
proof (induction pre)
  case Nil
  then show ?case by (simp split: prod.splits)
next
  case (Cons s pre)
  obtain name cache where s: "s = (name, cache)"
    by (cases s)
  show ?case
    by (simp add: s Cons.IH split: prod.splits option.splits)
qed

text \<open>
  Claim C3, as amended. When the read or the removal of one key rejects, the sweep ends
  with that call: the keys after it and the caches after it are not visited (no call is
  made on them and they stay as they were), what was removed before the failure stays
  removed, the buffer and the handle have been cleared, and the promise of
  \<open>invalidate\<close> rejects with the error of the cache.
\<close>

theorem sweep_stops_at_failure:
  assumes "cacheContext (invalidator w) = Some r"
    and "heap w r = pre @ (name, Some b) # post"
    and "sweep_context (filter_js onlyUnique (tags (invalidator w))) pre = (c1, pre', None)"
    and "getKeys b = Inr (ks1 @ k # ks2)"
    and "sweep_keys (filter_js onlyUnique (tags (invalidator w))) name ks1 b = (c2, b1, None)"
    and "purge_item (filter_js onlyUnique (tags (invalidator w))) name k b1 = (c3, b2, Some e)"
  shows "invalidate w =
     (w\<lparr>invalidator := (invalidator w)\<lparr>tags := [], timeout := None\<rparr>,
        heap := (heap w)(r := pre' @ (name, Some b1) # post)\<rparr>,
      Swept (filter_js onlyUnique (tags (invalidator w))) (c1 @ GetKeys name # c2 @ c3) (Some e))"
proof -
  let ?ts = "filter_js onlyUnique (tags (invalidator w))"
  have "sweep_keys ?ts name (ks1 @ k # ks2) b = (c2 @ c3, b1, Some e)"
    by (rule sweep_keys_stops [OF assms(5,6)])
  with assms(4) have "sweep_cache ?ts name (Some b) = (GetKeys name # c2 @ c3, Some b1, Some e)"
    by (simp add: sweep_cache_def)
  then have "sweep_context ?ts ((name, Some b) # post) =
      (GetKeys name # c2 @ c3, (name, Some b1) # post, Some e)"
    by simp
  with assms(3) have "sweep_context ?ts (heap w r) =
      (c1 @ GetKeys name # c2 @ c3, pre' @ (name, Some b1) # post, Some e)"
    unfolding assms(2) sweep_context_append by simp
  with assms(1) show ?thesis
    by (simp add: invalidate_def Let_def)
qed

subsection \<open>Sweeping twice\<close>

lemma shrunk_refl: "shrunk b b"
proof -
  have "b = b\<lparr>entries := filter (\<lambda>e. fst e \<notin> {}) (entries b)\<rparr>"
    by simp
  then show ?thesis
    unfolding shrunk_def by (rule exI)
qed

lemma shrunk_trans:
  assumes "shrunk a b" and "shrunk b c"
  shows "shrunk a c"
proof -
  from assms obtain D E where
    b: "b = a\<lparr>entries := filter (\<lambda>e. fst e \<notin> D) (entries a)\<rparr>" and
    c: "c = b\<lparr>entries := filter (\<lambda>e. fst e \<notin> E) (entries b)\<rparr>"
    by (auto simp: shrunk_def)
  have "filter (\<lambda>e. fst e \<notin> E) (filter (\<lambda>e. fst e \<notin> D) (entries a)) =
        filter (\<lambda>e. fst e \<notin> D \<union> E) (entries a)"
    by (auto intro: filter_cong)
  then have "c = a\<lparr>entries := filter (\<lambda>e. fst e \<notin> D \<union> E) (entries a)\<rparr>"
    by (subst c, subst (1 2) b) simp
  then show ?thesis
    unfolding shrunk_def by (rule exI)
qed

lemma shrunk_remove: "shrunk b (b\<lparr>entries := filter (\<lambda>e. fst e \<noteq> k) (entries b)\<rparr>)"
proof -
  have "filter (\<lambda>e. fst e \<noteq> k) (entries b) = filter (\<lambda>e. fst e \<notin> {k}) (entries b)"
    by simp
  then have "b\<lparr>entries := filter (\<lambda>e. fst e \<noteq> k) (entries b)\<rparr> =
             b\<lparr>entries := filter (\<lambda>e. fst e \<notin> {k}) (entries b)\<rparr>"
    by simp
  then show ?thesis
    unfolding shrunk_def by (rule exI)
qed

lemma shrunk_fields:
  assumes "shrunk b b'"
  shows "getItem_rejects b' = getItem_rejects b"
    and "removeItem_rejects b' = removeItem_rejects b"
    and "getKeys_rejects b' = getKeys_rejects b"
    and "fst ` set (entries b') \<subseteq> fst ` set (entries b)"
    and "map_of (entries b') x = None \<or> map_of (entries b') x = map_of (entries b) x"
    and "map fst (entries b') = filter (\<lambda>k. k \<in> fst ` set (entries b')) (map fst (entries b))"
proof -
  from assms obtain D where b': "b' = b\<lparr>entries := filter (\<lambda>e. fst e \<notin> D) (entries b)\<rparr>"
    by (auto simp: shrunk_def)
  then have e: "entries b' = filter (\<lambda>e. fst e \<notin> D) (entries b)"
    by simp
  show "getItem_rejects b' = getItem_rejects b" "removeItem_rejects b' = removeItem_rejects b"
    "getKeys_rejects b' = getKeys_rejects b"
    by (simp_all add: b')
  show "fst ` set (entries b') \<subseteq> fst ` set (entries b)"
    by (auto simp: e)
  show "map_of (entries b') x = None \<or> map_of (entries b') x = map_of (entries b) x"
    unfolding e using map_of_filter_fst [of "\<lambda>k. k \<notin> D" "entries b" x] by simp
  have "map fst (filter (\<lambda>e. fst e \<notin> D) (entries b)) =
        filter (\<lambda>k. k \<in> fst ` set (filter (\<lambda>e. fst e \<notin> D) (entries b))) (map fst (entries b))"
    unfolding filter_map comp_def
    by (rule arg_cong [where f = "map fst"], rule filter_cong) (auto simp: image_iff)
  then show "map fst (entries b') = filter (\<lambda>k. k \<in> fst ` set (entries b')) (map fst (entries b))"
    by (simp add: e)
qed

lemma purge_item_shrunk: "purge_item ts name k b = (c, b1, r) \<Longrightarrow> shrunk b b1"
  by (auto simp: purge_item_alt getItem_def removeItem_def shrunk_refl shrunk_remove
      split: if_splits)

lemma sweep_keys_shrunk: "sweep_keys ts name ks b = (c, b', r) \<Longrightarrow> shrunk b b'"
proof (induction ks arbitrary: b c)
  case Nil
  then show ?case by (simp add: shrunk_refl)
next
  case (Cons k ks)
  obtain c1 b1 r1 where p: "purge_item ts name k b = (c1, b1, r1)"
    by (cases "purge_item ts name k b") auto
  note s1 = purge_item_shrunk [OF p]
  show ?case
  proof (cases r1)
    case None
    obtain c2 b2 r2 where s: "sweep_keys ts name ks b1 = (c2, b2, r2)"
      by (cases "sweep_keys ts name ks b1") auto
    with Cons.prems p None have "b2 = b'" "r2 = r"
      by simp_all
    with Cons.IH [of b1 c2] s s1 show ?thesis
      by (auto intro: shrunk_trans)
  next
    case (Some e)
    with Cons.prems p s1 show ?thesis
      by simp
  qed
qed


lemma purges_in_keys: "purges ts (map_of es k) \<Longrightarrow> k \<in> fst ` set es"
  by (cases "map_of es k") (auto simp: purges_def dest: map_of_SomeD intro: rev_image_eqI)

lemma purge_item_quiet:
  assumes "k \<notin> set (getItem_rejects b)" and "\<not> purges ts (map_of (entries b) k)"
  shows "purge_item ts name k b = ([GetItem name k], b, None)"
  using assms by (simp add: purge_item_alt getItem_def)

lemma purge_item_fail_in_keys:
  assumes "purge_item ts name k b = (c, b1, Some e)"
    and "k \<in> fst ` set (entries b) \<or> k \<notin> set (getItem_rejects b)"
  shows "k \<in> fst ` set (entries b)"
  using assms
  by (auto simp: purge_item_alt getItem_def removeItem_def split: if_splits
      dest: purges_in_keys)

lemma sweep_keys_again:
  assumes "\<forall>k\<in>set ks. k \<in> fst ` set (entries b) \<or> k \<notin> set (getItem_rejects b)"
    and "sweep_keys ts name ks b = (c, b', r)"
  shows "\<exists>c'. sweep_keys ts name (filter (\<lambda>k. k \<in> fst ` set (entries b')) ks) b' = (c', b', r)"
  using assms
proof (induction ks arbitrary: b c)
  case Nil
  then show ?case by simp
next
  case (Cons k ks)
  obtain c1 b1 r1 where p: "purge_item ts name k b = (c1, b1, r1)"
    by (cases "purge_item ts name k b") auto
  show ?case
  proof (cases r1)
    case (Some e)
    from p Some have b1: "b1 = b"
      by (simp add: purge_item_fail)
    from Cons.prems(2) p Some b1 have eq: "b' = b" "r = Some e"
      by simp_all
    from p Some Cons.prems(1) have "k \<in> fst ` set (entries b)"
      by (intro purge_item_fail_in_keys [of ts name k b c1 b1 e]) simp_all
    with p Some b1 show ?thesis
      by (simp add: eq)
  next
    case None
    note ok = purge_item_ok [OF p [unfolded None]]
    obtain c2 b2 r2 where s: "sweep_keys ts name ks b1 = (c2, b2, r2)"
      by (cases "sweep_keys ts name ks b1") auto
    with Cons.prems(2) p None have eq: "b2 = b'" "r2 = r"
      by simp_all
    note sh1 = shrunk_fields [OF purge_item_shrunk [OF p]]
    note sh2 = shrunk_fields [OF sweep_keys_shrunk [OF s [unfolded eq]]]
    have ent1: "entries b1 = filter (\<lambda>e. \<not> (fst e = k \<and> purges ts (map_of (entries b) k))) (entries b)"
      by (subst ok(2)) simp
    have "\<forall>x\<in>set ks. x \<in> fst ` set (entries b1) \<or> x \<notin> set (getItem_rejects b1)"
    proof
      fix x assume "x \<in> set ks"
      with Cons.prems(1) have "x \<in> fst ` set (entries b) \<or> x \<notin> set (getItem_rejects b)"
        by simp
      then show "x \<in> fst ` set (entries b1) \<or> x \<notin> set (getItem_rejects b1)"
        using ok(1) by (cases "x = k") (auto simp: sh1(1) ent1 image_iff)
    qed
    from Cons.IH [OF this s [unfolded eq]] obtain c' where
      again: "sweep_keys ts name (filter (\<lambda>k. k \<in> fst ` set (entries b')) ks) b' = (c', b', r)"
      by auto
    show ?thesis
    proof (cases "k \<in> fst ` set (entries b')")
      case False
      with again show ?thesis by simp
    next
      case True
      with sh2(4) have in1: "k \<in> fst ` set (entries b1)"
        by auto
      have np: "\<not> purges ts (map_of (entries b) k)"
      proof
        assume "purges ts (map_of (entries b) k)"
        with ent1 have "k \<notin> fst ` set (entries b1)"
          by auto
        with in1 show False by simp
      qed
      then have "entries b1 = entries b"
        by (simp add: ent1)
      with sh2(5) [of k] np have "\<not> purges ts (map_of (entries b') k)"
        by (auto simp: purges_def)
      moreover from ok(1) have "k \<notin> set (getItem_rejects b')"
        by (simp add: sh1(1) sh2(1))
      ultimately have "purge_item ts name k b' = ([GetItem name k], b', None)"
        by (rule purge_item_quiet [rotated])
      with again True show ?thesis
        by simp
    qed
  qed
qed

lemma sweep_cache_again:
  assumes "sweep_cache ts name cache = (c, cache', r)"
  shows "\<exists>c'. sweep_cache ts name cache' = (c', cache', r)"
proof (cases cache)
  case None
  with assms show ?thesis
    by (simp add: sweep_cache_def)
next
  case (Some b)
  show ?thesis
  proof (cases "getKeys_rejects b")
    case True
    with assms Some show ?thesis
      by (auto simp: sweep_cache_def getKeys_def)
  next
    case False
    obtain c2 b2 r2 where s: "sweep_keys ts name (map fst (entries b)) b = (c2, b2, r2)"
      by (cases "sweep_keys ts name (map fst (entries b)) b") auto
    with assms Some False have eq: "cache' = Some b2" "r2 = r"
      by (simp_all add: sweep_cache_def getKeys_def)
    note sh = shrunk_fields [OF sweep_keys_shrunk [OF s]]
    have "\<forall>k\<in>set (map fst (entries b)). k \<in> fst ` set (entries b) \<or> k \<notin> set (getItem_rejects b)"
      by simp
    from sweep_keys_again [OF this s] obtain c' where
      "sweep_keys ts name (map fst (entries b2)) b2 = (c', b2, r2)"
      unfolding sh(6) [symmetric] by auto
    with False show ?thesis
      by (simp add: eq sweep_cache_def getKeys_def sh(3))
  qed
qed

lemma sweep_context_again:
  "sweep_context ts ctx = (c, ctx', r) \<Longrightarrow> \<exists>c'. sweep_context ts ctx' = (c', ctx', r)"
proof (induction ctx arbitrary: c ctx')
  case Nil
  then show ?case by simp
next
  case (Cons s ctx)
  obtain name cache where s: "s = (name, cache)"
    by (cases s)
  obtain c1 cache1 r1 where a: "sweep_cache ts name cache = (c1, cache1, r1)"
    by (cases "sweep_cache ts name cache") auto
  from sweep_cache_again [OF a] obtain c1' where
    a': "sweep_cache ts name cache1 = (c1', cache1, r1)"
    by auto
  show ?case
  proof (cases r1)
    case (Some e)
    with Cons.prems s a a' show ?thesis
      by auto
  next
    case None
    obtain c2 rest r2 where b: "sweep_context ts ctx = (c2, rest, r2)"
      by (cases "sweep_context ts ctx") auto
    with Cons.prems s a None have eq: "ctx' = (name, cache1) # rest" "r2 = r"
      by simp_all
    from Cons.IH [OF b [unfolded eq(2)]] obtain c2' where
      "sweep_context ts rest = (c2', rest, r)"
      by auto
    with a' None show ?thesis
      by (simp add: eq)
  qed
qed

text \<open>
  Claim C9. Sweeping a second time with the same pending tags, nothing else having
  written to the caches, leaves every cache as the first sweep left it.
\<close>

theorem sweep_idempotent:
  "heap (fst (invalidate ((fst (invalidate w))\<lparr>invalidator := invalidator w\<rparr>))) =
     heap (fst (invalidate w))"
proof (cases "cacheContext (invalidator w)")
  case None
  then show ?thesis
    by (simp add: invalidate_def)
next
  case (Some r)
  let ?ts = "filter_js onlyUnique (tags (invalidator w))"
  obtain c ctx' res where s: "sweep_context ?ts (heap w r) = (c, ctx', res)"
    by (cases "sweep_context ?ts (heap w r)") auto
  from sweep_context_again [OF s] obtain c' where
    s': "sweep_context ?ts ctx' = (c', ctx', res)"
    by auto
  from Some s have 1: "fst (invalidate w) =
      w\<lparr>invalidator := (invalidator w)\<lparr>tags := [], timeout := None\<rparr>,
        heap := (heap w)(r := ctx')\<rparr>"
    by (simp add: invalidate_def Let_def)
  show ?thesis
    unfolding 1 using Some s' by (simp add: invalidate_def Let_def)
qed

subsection \<open>What a sweep removes\<close>

lemma pruned_refl: "pruned ts b b"
  by (auto simp: pruned_def shrunk_refl)

lemma pruned_trans:
  assumes "pruned ts a b" and "pruned ts b c"
  shows "pruned ts a c"
proof -
  from assms have s1: "shrunk a b" and s2: "shrunk b c"
    by (simp_all add: pruned_def)
  note f1 = shrunk_fields [OF s1]
  have "k \<notin> set (getItem_rejects a) \<and> purges ts (map_of (entries a) k)"
    if "map_of (entries a) k \<noteq> None" and "map_of (entries c) k = None" for k
  proof (cases "map_of (entries b) k = None")
    case True
    with assms(1) that(1) show ?thesis
      by (simp add: pruned_def)
  next
    case False
    with f1(5) [of k] have e: "map_of (entries b) k = map_of (entries a) k"
      by simp
    from assms(2) False that(2)
    have "k \<notin> set (getItem_rejects b) \<and> purges ts (map_of (entries b) k)"
      unfolding pruned_def by blast
    then show ?thesis
      unfolding e f1(1) .
  qed
  with shrunk_trans [OF s1 s2] show ?thesis
    by (simp add: pruned_def)
qed

lemma purge_item_pruned: "purge_item ts name k b = (c, b1, r) \<Longrightarrow> pruned ts b b1"
proof -
  assume p: "purge_item ts name k b = (c, b1, r)"
  have "x \<notin> set (getItem_rejects b) \<and> purges ts (map_of (entries b) x)"
    if "map_of (entries b) x \<noteq> None" and "map_of (entries b1) x = None" for x
  proof -
    from p that have "b1 \<noteq> b"
      by auto
    with p have *: "k \<notin> set (getItem_rejects b)" "purges ts (map_of (entries b) k)"
      "entries b1 = filter (\<lambda>e. fst e \<noteq> k) (entries b)"
      by (auto simp: purge_item_alt getItem_def removeItem_def split: if_splits)
    have "map_of (entries b1) x = (if x \<noteq> k then map_of (entries b) x else None)"
      unfolding *(3) by (rule map_of_filter_fst [of "\<lambda>x. x \<noteq> k"])
    with that have "x = k"
      by (auto split: if_splits)
    with * show ?thesis
      by simp
  qed
  with purge_item_shrunk [OF p] show ?thesis
    by (simp add: pruned_def)
qed

lemma sweep_keys_pruned: "sweep_keys ts name ks b = (c, b', r) \<Longrightarrow> pruned ts b b'"
proof (induction ks arbitrary: b c)
  case Nil
  then show ?case by (simp add: pruned_refl)
next
  case (Cons k ks)
  obtain c1 b1 r1 where p: "purge_item ts name k b = (c1, b1, r1)"
    by (cases "purge_item ts name k b") auto
  note s1 = purge_item_pruned [OF p]
  show ?case
  proof (cases r1)
    case None
    obtain c2 b2 r2 where s: "sweep_keys ts name ks b1 = (c2, b2, r2)"
      by (cases "sweep_keys ts name ks b1") auto
    with Cons.prems p None have "b2 = b'" "r2 = r"
      by simp_all
    with Cons.IH [of b1 c2] s s1 show ?thesis
      by (auto intro: pruned_trans)
  next
    case (Some e)
    with Cons.prems p s1 show ?thesis
      by simp
  qed
qed

lemma sweep_cache_pruned:
  "sweep_cache ts name cache = (c, cache', r) \<Longrightarrow> slot_pruned ts (name, cache) (name, cache')"
proof (cases cache)
  case None
  assume "sweep_cache ts name cache = (c, cache', r)"
  with None show ?thesis
    by (simp add: sweep_cache_def slot_pruned_def)
next
  case (Some b)
  assume a: "sweep_cache ts name cache = (c, cache', r)"
  show ?thesis
  proof (cases "getKeys b")
    case (Inl e)
    with a Some show ?thesis
      by (auto simp: sweep_cache_def slot_pruned_def pruned_refl)
  next
    case (Inr ks)
    obtain c2 b2 r2 where s: "sweep_keys ts name ks b = (c2, b2, r2)"
      by (cases "sweep_keys ts name ks b") auto
    with a Some Inr have "cache' = Some b2"
      by (simp add: sweep_cache_def)
    with sweep_keys_pruned [OF s] Some show ?thesis
      by (simp add: slot_pruned_def)
  qed
qed

lemma slot_pruned_refl: "slot_pruned ts s s"
  by (cases "snd s") (simp_all add: slot_pruned_def pruned_refl)

lemma sweep_context_pruned:
  "sweep_context ts ctx = (c, ctx', r) \<Longrightarrow> list_all2 (slot_pruned ts) ctx ctx'"
proof (induction ctx arbitrary: c ctx')
  case Nil
  then show ?case by simp
next
  case (Cons s ctx)
  obtain name cache where s: "s = (name, cache)"
    by (cases s)
  obtain c1 cache1 r1 where a: "sweep_cache ts name cache = (c1, cache1, r1)"
    by (cases "sweep_cache ts name cache") auto
  note h = sweep_cache_pruned [OF a]
  show ?case
  proof (cases r1)
    case (Some e)
    with Cons.prems s a have "ctx' = (name, cache1) # ctx"
      by auto
    with h show ?thesis
      by (simp add: s list_all2_refl slot_pruned_refl)
  next
    case None
    obtain c2 rest r2 where b: "sweep_context ts ctx = (c2, rest, r2)"
      by (cases "sweep_context ts ctx") auto
    with Cons.prems s a None have eq: "ctx' = (name, cache1) # rest" "r2 = r"
      by simp_all
    from Cons.IH [OF b [unfolded eq(2)]] h show ?thesis
      by (simp add: eq s)
  qed
qed

text \<open>
  Claim C1, as amended. Take a sweep with the cache context established, any cache of
  the context and any key that cache lists. The sweep runs with the drained pending
  tags. The entry under the key is gone afterwards only if reading the key returned an
  object with a \<open>cacheTags\<close> property that shares a tag with the drained tags; an
  entry that is still there is the one that was there before. When no call of the sweep
  rejected, the entry is gone exactly if the read returned such an object.
\<close>

theorem sweep_deletes_exactly_tagged:
  assumes "cacheContext (invalidator w) = Some r"
    and "invalidate w = (w', Swept ts calls res)"
    and "i < length (heap w r)"
    and "heap w r ! i = (name, Some b)"
    and "getKeys b = Inr ks"
    and "k \<in> set ks"
  shows "set ts = set (tags (invalidator w)) \<and>
    (\<exists>b'. heap w' r ! i = (name, Some b') \<and>
      (map_of (entries b') k = None \<longrightarrow>
         (\<exists>xs. getItem b k = Inr (Some (Object (Some xs))) \<and> set xs \<inter> set ts \<noteq> {})) \<and>
      (map_of (entries b') k \<noteq> None \<longrightarrow> map_of (entries b') k = map_of (entries b) k) \<and>
      (res = None \<longrightarrow>
         (map_of (entries b') k = None \<longleftrightarrow>
            (\<exists>xs. getItem b k = Inr (Some (Object (Some xs))) \<and> set xs \<inter> set ts \<noteq> {}))))"
proof -
  obtain c ctx' res' where s:
    "sweep_context (filter_js onlyUnique (tags (invalidator w))) (heap w r) = (c, ctx', res')"
    by (cases "sweep_context (filter_js onlyUnique (tags (invalidator w))) (heap w r)") auto
  from assms(1,2) s have eq: "ts = filter_js onlyUnique (tags (invalidator w))" "res' = res"
    and h: "heap w' r = ctx'"
    by (auto simp: invalidate_def Let_def)
  have C: "set ts = set (tags (invalidator w))"
    unfolding eq(1) by (rule set_filter_js_onlyUnique)
  from assms(5,6) have kin: "k \<in> fst ` set (entries b)"
    by (auto simp: getKeys_def split: if_splits)
  then have some: "map_of (entries b) k \<noteq> None"
    by (simp add: map_of_eq_None_iff)
  from sweep_context_pruned [OF s] have "list_all2 (slot_pruned ts) (heap w r) ctx'"
    by (simp add: eq(1))
  with assms(3) have "slot_pruned ts (heap w r ! i) (ctx' ! i)"
    by (simp add: list_all2_nthD)
  with assms(4) obtain b' where slot: "ctx' ! i = (name, Some b')" and pr: "pruned ts b b'"
    by (auto simp: slot_pruned_def prod_eq_iff)
  from pr have sh: "shrunk b b'"
    by (simp add: pruned_def)
  have A: "map_of (entries b') k = None \<longrightarrow>
         (\<exists>xs. getItem b k = Inr (Some (Object (Some xs))) \<and> set xs \<inter> set ts \<noteq> {})"
  proof
    assume "map_of (entries b') k = None"
    with pr some have "k \<notin> set (getItem_rejects b)" "purges ts (map_of (entries b) k)"
      by (simp_all add: pruned_def)
    then show "\<exists>xs. getItem b k = Inr (Some (Object (Some xs))) \<and> set xs \<inter> set ts \<noteq> {}"
      by (simp add: getItem_def purges_iff)
  qed
  have B: "map_of (entries b') k \<noteq> None \<longrightarrow> map_of (entries b') k = map_of (entries b) k"
    using shrunk_fields(5) [OF sh, of k] by auto
  have D: "res = None \<longrightarrow>
         (map_of (entries b') k = None \<longleftrightarrow>
            (\<exists>xs. getItem b k = Inr (Some (Object (Some xs))) \<and> set xs \<inter> set ts \<noteq> {}))"
  proof
    assume "res = None"
    with s eq have s': "sweep_context ts (heap w r) = (c, ctx', None)"
      by simp
    from sweep_context_ok [OF s'] assms(3) have "slot_swept ts (heap w r ! i) (ctx' ! i)"
      by (simp add: list_all2_nthD)
    with assms(4) slot have b': "b' = swept ts b"
      and rd: "fst ` set (entries b) \<inter> set (getItem_rejects b) = {}"
      by (auto simp: slot_swept_def)
    from kin rd have gi: "getItem b k = Inr (map_of (entries b) k)"
      by (auto simp: getItem_def)
    show "map_of (entries b') k = None \<longleftrightarrow>
            (\<exists>xs. getItem b k = Inr (Some (Object (Some xs))) \<and> set xs \<inter> set ts \<noteq> {})"
      unfolding b' using some by (auto simp: map_of_swept gi purges_iff)
  qed
  have E: "heap w' r ! i = (name, Some b')"
    unfolding h by (rule slot)
  show ?thesis
    by (intro conjI exI [of _ b'] A B C D E)
qed

subsection \<open>Timers and windows\<close>


lemma add_armed:
  "timeout (invalidator w) \<noteq> None \<Longrightarrow>
     add ts w = w\<lparr>invalidator := (invalidator w)\<lparr>tags := fold push_tag ts (tags (invalidator w))\<rparr>\<rparr>"
  by (auto simp: add_def Let_def)

lemma add_idle:
  "timeout (invalidator w) = None \<Longrightarrow>
     add ts w =
       w\<lparr>timers := timers w @ [(Timeout (next_id w), clock w + timeout_ms (delay (invalidator w)))],
         next_id := Suc (next_id w),
         invalidator := (invalidator w)
           \<lparr>tags := fold push_tag ts (tags (invalidator w)), timeout := Some (Timeout (next_id w))\<rparr>\<rparr>"
  by (simp add: add_def setTimeout_def Let_def)

lemma step_Request:
  "step (Request ev) w =
     (if auth ev = None \<and> (\<exists>ts. getTagsToPurge ev = Inr ts)
      then add (added (Request ev)) (with_context ev w) else w)"
  by (cases "getTagsToPurge ev") (auto simp: purgeTags_def with_context_def Let_def split: option.splits)

lemma with_context_fields:
  "timeout (invalidator (with_context ev w)) = timeout (invalidator w)"
  "tags (invalidator (with_context ev w)) = tags (invalidator w)"
  "timers (with_context ev w) = timers w"
  "clock (with_context ev w) = clock w"
  "journal (with_context ev w) = journal w"
  "next_id (with_context ev w) = next_id w"
  "heap (with_context ev w) = heap w"
  by (simp_all add: with_context_def)

lemma added_rejected:
  "\<not> (auth ev = None \<and> (\<exists>ts. getTagsToPurge ev = Inr ts)) \<Longrightarrow> added (Request ev) = []"
  by (cases "getTagsToPurge ev") (auto split: option.splits)

lemma elapse_no_timer:
  "timers w = [] \<Longrightarrow> elapse n w = w\<lparr>clock := clock w + n\<rparr>"
  by (simp add: elapse_def)


lemma elapse_fires:
  "timers w = [(h, d)] \<Longrightarrow> d \<le> clock w + n \<Longrightarrow>
     elapse n w = (timer_callback d (w\<lparr>timers := []\<rparr>))\<lparr>clock := clock w + n\<rparr>"
  by (simp add: elapse_def)

lemma timer_callback_unset:
  "cacheContext (invalidator w) = None \<Longrightarrow>
     timer_callback t w = w\<lparr>clock := t, journal := journal w @ [(t, Skipped)]\<rparr>"
  by (simp add: timer_callback_def invalidate_def)




lemma elapsed_append: "elapsed (xs @ ys) = elapsed xs + elapsed ys"
  by (induction xs rule: elapsed.induct) simp_all













lemma add_delay: "delay (invalidator (add ts w)) = delay (invalidator w)"
  by (cases "timeout (invalidator w)") (simp_all add: add_idle add_armed)







text \<open>Once the handle is stale, nothing arms a timer again.\<close>

lemma step_stale:
  assumes "timeout (invalidator w) = Some h" and "timers w = []"
  shows "timeout (invalidator (step e w)) = Some h"
    and "timers (step e w) = []"
    and "journal (step e w) = journal w"
    and "tags (invalidator (step e w)) = fold push_tag (added e) (tags (invalidator w))"
proof -
  have "timeout (invalidator (step e w)) = Some h \<and> timers (step e w) = [] \<and>
    journal (step e w) = journal w \<and>
    tags (invalidator (step e w)) = fold push_tag (added e) (tags (invalidator w))"
  proof (cases e)
    case (Add ts)
    with assms show ?thesis
      by (simp add: add_armed)
  next
    case (Request ev)
    with assms show ?thesis
      by (simp add: step_Request add_armed with_context_fields added_rejected
          del: added.simps step.simps)
  next
    case (Elapse n)
    with assms show ?thesis
      by (simp add: elapse_no_timer)
  qed
  then show "timeout (invalidator (step e w)) = Some h"
    and "timers (step e w) = []"
    and "journal (step e w) = journal w"
    and "tags (invalidator (step e w)) = fold push_tag (added e) (tags (invalidator w))"
    by simp_all
qed

lemma run_stale:
  assumes "timeout (invalidator w) = Some h" and "timers w = []"
  shows "timeout (invalidator (run evs w)) = Some h \<and>
     timers (run evs w) = [] \<and>
     journal (run evs w) = journal w \<and>
     tags (invalidator (run evs w)) = fold push_tag (concat (map added evs)) (tags (invalidator w))"
  using assms
proof (induction evs arbitrary: w)
  case Nil
  then show ?case by (simp add: run_def)
next
  case (Cons e evs)
  note st = step_stale [OF Cons.prems, of e]
  from Cons.IH [OF st(1,2)] show ?case
    by (simp add: run_def st)
qed

text \<open>
  Claim C10. When the timer fires while the context is unset, the handle of the expired
  timer stays in \<open>timeout\<close>. Through every later event the handle is still that
  one, no timer is armed, no callback runs any more, and the tags of every later
  \<open>add\<close> pile up in the buffer.
\<close>

theorem stale_handle_blocks_sweeps:
  assumes "cacheContext (invalidator w) = None"
    and "timeout (invalidator w) = Some h"
    and "timers w = [(h, d)]"
    and "d \<le> clock w + n"
  shows "timeout (invalidator (run evs (elapse n w))) = Some h \<and>
     timers (run evs (elapse n w)) = [] \<and>
     journal (run evs (elapse n w)) = journal w @ [(d, Skipped)] \<and>
     tags (invalidator (run evs (elapse n w))) =
       fold push_tag (concat (map added evs)) (tags (invalidator w))"
proof -
  from assms(1) have "cacheContext (invalidator (w\<lparr>timers := []\<rparr>)) = None"
    by simp
  then have e: "elapse n w =
      w\<lparr>timers := [], clock := clock w + n, journal := journal w @ [(d, Skipped)]\<rparr>"
    by (simp add: elapse_fires [OF assms(3,4)] timer_callback_unset)
  have "timeout (invalidator (elapse n w)) = Some h" "timers (elapse n w) = []"
    by (simp_all add: e assms(2))
  from run_stale [OF this, of evs] show ?thesis
    by (simp add: e)
qed

subsection \<open>A timer that fires before the context is set\<close>

text \<open>
  Claim C7. If the cache context has not been established when the timer fires,
  \<open>invalidate\<close> returns at once: it makes no call on any cache (no key listing, no
  read, no removal), changes nothing, and does not reject; the timer callback only
  notes that it ran.
\<close>

theorem invalidate_unset_context:
  "cacheContext (invalidator w) = None \<Longrightarrow>
     invalidate w = (w, Skipped) \<and>
     timer_callback t w = w\<lparr>clock := t, journal := journal w @ [(t, Skipped)]\<rparr>"
  by (simp add: invalidate_def timer_callback_def)

theorem invalidate_unset_context_witness:
  "cacheContext (invalidator (add [''t1''] example_world)) = None \<and>
   invalidate (add [''t1''] example_world) = (add [''t1''] example_world, Skipped) \<and>
   timer_callback 60000 (add [''t1''] example_world) =
     (add [''t1''] example_world)
       \<lparr>clock := 60000, journal := journal (add [''t1''] example_world) @ [(60000, Skipped)]\<rparr>"
proof -
  have h: "cacheContext (invalidator (add [''t1''] example_world)) = None"
    by (simp add: add_def setTimeout_def example_world_def boot_def new_invalidator_def)
  show ?thesis
    using h invalidate_unset_context [OF h, of 60000] by simp
qed

section \<open>The properties on the example processes\<close>

subsection \<open>Sweeps\<close>

lemmas eval_defs =
  purgeTags_def getTagsToPurge_def add_def setTimeout_def push_tag_def timeout_ms_def
  invalidate_def sweep_cache_def purge_item_def getKeys_def getItem_def removeItem_def
  shouldPurge_def timer_callback_def elapse_def run_def boot_def new_invalidator_def Let_def

lemma filter_js_t1: "filter_js onlyUnique [''t1''] = [''t1'']"
  by (simp add: filter_js_onlyUnique_distinct)

lemma world_t1_eval:
  "world_t1 = example_world
     \<lparr>timers := [(Timeout 0, 60000)], next_id := Suc 0,
      invalidator := \<lparr>tags = [''t1''], delay = Some 60000, timeout = Some (Timeout 0),
                      cacheContext = Some 0\<rparr>\<rparr>"
  by (simp add: world_t1_def request_t1_def example_world_def eval_defs)

lemma invalidate_world_t1:
  "invalidate world_t1 =
     (fst (invalidate world_t1),
      Swept [''t1'']
        [GetKeys ''data'', GetItem ''data'' ''k1'', RemoveItem ''data'' ''k1'', GetItem ''data'' ''k2'',
         GetKeys ''route'', GetItem ''route'' ''k3'', RemoveItem ''route'' ''k3'', GetItem ''route'' ''k4'']
        None)"
  by (simp add: world_t1_eval filter_js_t1 example_world_def example_heap_def cache_a_def cache_b_def eval_defs)

lemma locked_world_eval:
  "locked_world = (boot locked_heap None 60000)
     \<lparr>timers := [(Timeout 0, 60000)], next_id := Suc 0,
      invalidator := \<lparr>tags = [''t1''], delay = Some 60000, timeout = Some (Timeout 0),
                      cacheContext = Some 0\<rparr>\<rparr>"
  by (simp add: locked_world_def request_t1_def eval_defs)

lemma invalidate_locked_world:
  "invalidate locked_world =
     (fst (invalidate locked_world),
      Swept [''t1''] [GetKeys ''data'', GetItem ''data'' ''k1'', RemoveItem ''data'' ''k1'']
        (Some (StorageError ''removeItem'')))"
  by (simp add: locked_world_eval filter_js_t1 locked_heap_def cache_locked_def
      cache_a_def cache_b_def eval_defs)

theorem sweep_deletes_exactly_tagged_witness:
  "cacheContext (invalidator world_t1) = Some 0 \<and>
   snd (invalidate world_t1) =
     Swept [''t1'']
        [GetKeys ''data'', GetItem ''data'' ''k1'', RemoveItem ''data'' ''k1'', GetItem ''data'' ''k2'',
         GetKeys ''route'', GetItem ''route'' ''k3'', RemoveItem ''route'' ''k3'', GetItem ''route'' ''k4'']
        None \<and>
   heap world_t1 0 ! 0 = (''data'', Some cache_a) \<and>
   getKeys cache_a = Inr [''k1'', ''k2''] \<and>
   getItem cache_a ''k1'' = Inr (Some (Object (Some [''t1'', ''t2'']))) \<and>
   getItem cache_a ''k2'' = Inr (Some (Object (Some [''t3'']))) \<and>
   set [''t1''] = set (tags (invalidator world_t1)) \<and>
   (\<exists>b'. heap (fst (invalidate world_t1)) 0 ! 0 = (''data'', Some b') \<and>
         map_of (entries b') ''k1'' = None) \<and>
   (\<exists>b'. heap (fst (invalidate world_t1)) 0 ! 0 = (''data'', Some b') \<and>
         map_of (entries b') ''k2'' = Some (Object (Some [''t3'']))) \<and>
   cacheContext (invalidator locked_world) = Some 0 \<and>
   snd (invalidate locked_world) =
     Swept [''t1''] [GetKeys ''data'', GetItem ''data'' ''k1'', RemoveItem ''data'' ''k1'']
       (Some (StorageError ''removeItem'')) \<and>
   heap locked_world 0 ! 1 = (''route'', Some cache_b) \<and>
   getKeys cache_b = Inr [''k3'', ''k4''] \<and>
   (\<exists>b'. heap (fst (invalidate locked_world)) 0 ! 1 = (''route'', Some b') \<and>
         map_of (entries b') ''k4'' = Some (Plain ''page''))"
proof -
  have l1: "cacheContext (invalidator locked_world) = Some 0"
    by (simp add: locked_world_eval)
  have l3: "1 < length (heap locked_world 0)"
    and l4: "heap locked_world 0 ! 1 = (''route'', Some cache_b)"
    by (simp_all add: locked_world_eval boot_def locked_heap_def)
  have l5: "getKeys cache_b = Inr [''k3'', ''k4'']"
    and l6: "''k4'' \<in> set [''k3'', ''k4'']"
    and lm: "map_of (entries cache_b) ''k4'' = Some (Plain ''page'')"
    and lg: "getItem cache_b ''k4'' = Inr (Some (Plain ''page''))"
    by (simp_all add: getKeys_def getItem_def cache_b_def)
  from sweep_deletes_exactly_tagged [OF l1 invalidate_locked_world l3 l4 l5 l6] lm lg
  have l: "\<exists>b'. heap (fst (invalidate locked_world)) 0 ! 1 = (''route'', Some b') \<and>
         map_of (entries b') ''k4'' = Some (Plain ''page'')"
    by auto
  have lc: "snd (invalidate locked_world) =
     Swept [''t1''] [GetKeys ''data'', GetItem ''data'' ''k1'', RemoveItem ''data'' ''k1'']
       (Some (StorageError ''removeItem''))"
    by (subst invalidate_locked_world) simp
  have 1: "cacheContext (invalidator world_t1) = Some 0"
    by (simp add: world_t1_eval)
  have 3: "0 < length (heap world_t1 0)"
    by (simp add: world_t1_eval example_world_def boot_def example_heap_def)
  have 4: "heap world_t1 0 ! 0 = (''data'', Some cache_a)"
    by (simp add: world_t1_eval example_world_def boot_def example_heap_def)
  have 5: "getKeys cache_a = Inr [''k1'', ''k2'']"
    by (simp add: getKeys_def cache_a_def)
  have 6: "''k1'' \<in> set [''k1'', ''k2'']" and 7: "''k2'' \<in> set [''k1'', ''k2'']"
    by simp_all
  have g: "getItem cache_a ''k1'' = Inr (Some (Object (Some [''t1'', ''t2''])))"
    and g': "getItem cache_a ''k2'' = Inr (Some (Object (Some [''t3''])))"
    and m: "map_of (entries cache_a) ''k2'' = Some (Object (Some [''t3'']))"
    by (simp_all add: getItem_def cache_a_def)
  from sweep_deletes_exactly_tagged [OF 1 invalidate_world_t1 3 4 5 6] g
  have a: "set [''t1''] = set (tags (invalidator world_t1)) \<and>
   (\<exists>b'. heap (fst (invalidate world_t1)) 0 ! 0 = (''data'', Some b') \<and>
         map_of (entries b') ''k1'' = None)"
    by auto
  from sweep_deletes_exactly_tagged [OF 1 invalidate_world_t1 3 4 5 7] g' m
  have b: "\<exists>b'. heap (fst (invalidate world_t1)) 0 ! 0 = (''data'', Some b') \<and>
         map_of (entries b') ''k2'' = Some (Object (Some [''t3'']))"
    by auto
  have c: "snd (invalidate world_t1) =
     Swept [''t1'']
        [GetKeys ''data'', GetItem ''data'' ''k1'', RemoveItem ''data'' ''k1'', GetItem ''data'' ''k2'',
         GetKeys ''route'', GetItem ''route'' ''k3'', RemoveItem ''route'' ''k3'', GetItem ''route'' ''k4'']
        None"
    by (subst invalidate_world_t1) simp
  from 1 c 4 5 g g' a b l1 lc l4 l5 l show ?thesis
    by (intro conjI) simp_all
qed

text \<open>
  Against claim C1 as stated: the removal of \<open>k1\<close> rejects. \<open>k1\<close> was listed and
  read as an item carrying the pending tag \<open>t1\<close>, and so would \<open>k3\<close> of the next
  cache be; both are still stored after the sweep.
\<close>

theorem tagged_item_survives_counterexample:
  "cacheContext (invalidator locked_world) = Some 0 \<and>
   tags (invalidator locked_world) = [''t1''] \<and>
   heap locked_world 0 = [(''data'', Some cache_locked), (''route'', Some cache_b)] \<and>
   getKeys cache_locked = Inr [''k1'', ''k2''] \<and>
   getItem cache_locked ''k1'' = Inr (Some (Object (Some [''t1'', ''t2'']))) \<and>
   getKeys cache_b = Inr [''k3'', ''k4''] \<and>
   getItem cache_b ''k3'' = Inr (Some (Object (Some [''t1'']))) \<and>
   snd (invalidate locked_world) =
     Swept [''t1''] [GetKeys ''data'', GetItem ''data'' ''k1'', RemoveItem ''data'' ''k1'']
       (Some (StorageError ''removeItem'')) \<and>
   heap (fst (invalidate locked_world)) 0 =
     [(''data'', Some cache_locked), (''route'', Some cache_b)]"
  by (simp add: locked_world_eval filter_js_t1 locked_heap_def cache_locked_def
      cache_a_def cache_b_def eval_defs)

lemma filter_js_t1_t3: "filter_js onlyUnique [''t1'', ''t3''] = [''t1'', ''t3'']"
  by (simp add: filter_js_onlyUnique_distinct)

lemma failing_world_eval:
  "failing_world = (boot failing_heap None 60000)
     \<lparr>timers := [(Timeout 0, 60000)], next_id := Suc 0,
      invalidator := \<lparr>tags = [''t1'', ''t3''], delay = Some 60000, timeout = Some (Timeout 0),
                      cacheContext = Some 0\<rparr>\<rparr>"
  by (simp add: failing_world_def request_t1_t3_def eval_defs)

text \<open>
  Against claim C3 as stated: the read of \<open>k1\<close> in the first cache rejects. The
  sweep makes no further call, although \<open>k2\<close> of the same cache and \<open>k3\<close> of the
  next cache carry pending tags; both stay, and the promise of \<open>invalidate\<close> rejects.
\<close>

theorem sweep_skips_failed_item_counterexample:
  "getItem cache_failing ''k1'' = Inl (StorageError ''getItem'') \<and>
   getItem cache_failing ''k2'' = Inr (Some (Object (Some [''t3'']))) \<and>
   getItem cache_b ''k3'' = Inr (Some (Object (Some [''t1'']))) \<and>
   snd (invalidate failing_world) =
     Swept [''t1'', ''t3''] [GetKeys ''data'', GetItem ''data'' ''k1'']
       (Some (StorageError ''getItem'')) \<and>
   heap (fst (invalidate failing_world)) 0 =
     [(''data'', Some cache_failing), (''route'', Some cache_b)]"
  by (simp add: failing_world_eval filter_js_t1_t3 failing_heap_def cache_failing_def
      cache_a_def cache_b_def eval_defs)

theorem sweep_stops_at_failure_witness:
  "cacheContext (invalidator failing_world) = Some 0 \<and>
   heap failing_world 0 = [] @ (''data'', Some cache_failing) # [(''route'', Some cache_b)] \<and>
   getKeys cache_failing = Inr ([] @ ''k1'' # [''k2'']) \<and>
   purge_item [''t1'', ''t3''] ''data'' ''k1'' cache_failing =
     ([GetItem ''data'' ''k1''], cache_failing, Some (StorageError ''getItem'')) \<and>
   invalidate failing_world =
     (failing_world
        \<lparr>invalidator := (invalidator failing_world)\<lparr>tags := [], timeout := None\<rparr>,
         heap := (heap failing_world)
                   (0 := [] @ (''data'', Some cache_failing) # [(''route'', Some cache_b)])\<rparr>,
      Swept [''t1'', ''t3''] ([] @ GetKeys ''data'' # [] @ [GetItem ''data'' ''k1''])
        (Some (StorageError ''getItem'')))"
proof -
  have t: "filter_js onlyUnique (tags (invalidator failing_world)) = [''t1'', ''t3'']"
    by (simp add: failing_world_eval filter_js_t1_t3)
  have 1: "cacheContext (invalidator failing_world) = Some 0"
    by (simp add: failing_world_eval)
  have 2: "heap failing_world 0 = [] @ (''data'', Some cache_failing) # [(''route'', Some cache_b)]"
    by (simp add: failing_world_eval boot_def failing_heap_def)
  have 3: "sweep_context (filter_js onlyUnique (tags (invalidator failing_world))) [] = ([], [], None)"
    by simp
  have 4: "getKeys cache_failing = Inr ([] @ ''k1'' # [''k2''])"
    by (simp add: getKeys_def cache_failing_def cache_a_def)
  have 5: "sweep_keys (filter_js onlyUnique (tags (invalidator failing_world))) ''data'' [] cache_failing =
      ([], cache_failing, None)"
    by simp
  have 6: "purge_item (filter_js onlyUnique (tags (invalidator failing_world))) ''data'' ''k1'' cache_failing =
     ([GetItem ''data'' ''k1''], cache_failing, Some (StorageError ''getItem''))"
    by (simp add: purge_item_def getItem_def cache_failing_def)
  from sweep_stops_at_failure [OF 1 2 3 4 5 6] 1 2 4 6 show ?thesis
    unfolding t by simp
qed

subsection \<open>Windows\<close>





subsection \<open>Expiry without context, and the handler\<close>

lemma waiting_world_eval:
  "waiting_world = example_world
     \<lparr>timers := [(Timeout 0, 60000)], next_id := Suc 0,
      invalidator := \<lparr>tags = [''t1''], delay = Some 60000, timeout = Some (Timeout 0),
                      cacheContext = None\<rparr>\<rparr>"
  by (simp add: waiting_world_def request_no_context_def example_world_def eval_defs)

theorem stale_handle_blocks_sweeps_witness:
  "cacheContext (invalidator waiting_world) = None \<and>
   timeout (invalidator waiting_world) = Some (Timeout 0) \<and>
   timers waiting_world = [(Timeout 0, 60000)] \<and>
   60000 \<le> clock waiting_world + 60000 \<and>
   timeout (invalidator (run [Request request_t1, Elapse 60000, Add [''b'']] (elapse 60000 waiting_world))) =
     Some (Timeout 0) \<and>
   timers (run [Request request_t1, Elapse 60000, Add [''b'']] (elapse 60000 waiting_world)) = [] \<and>
   journal (run [Request request_t1, Elapse 60000, Add [''b'']] (elapse 60000 waiting_world)) =
     [(60000, Skipped)] \<and>
   tags (invalidator (run [Request request_t1, Elapse 60000, Add [''b'']] (elapse 60000 waiting_world))) =
     [''t1'', ''b'']"
proof -
  have 1: "cacheContext (invalidator waiting_world) = None"
    and 2: "timeout (invalidator waiting_world) = Some (Timeout 0)"
    and 3: "timers waiting_world = [(Timeout 0, 60000)]"
    and 4: "60000 \<le> clock waiting_world + 60000"
    and 5: "journal waiting_world = []" "tags (invalidator waiting_world) = [''t1'']"
    by (simp_all add: waiting_world_eval example_world_def boot_def)
  have 6: "fold push_tag (concat (map added [Request request_t1, Elapse 60000, Add [''b'']])) [''t1''] =
      [''t1'', ''b'']"
    by (simp add: request_t1_def getTagsToPurge_def push_tag_def)
  from stale_handle_blocks_sweeps [OF 1 2 3 4, of "[Request request_t1, Elapse 60000, Add [''b'']]"]
    1 2 3 4
  show ?thesis
    unfolding 5 6 by simp
qed

lemma stale_world_eval:
  "stale_world = waiting_world\<lparr>timers := [], clock := 60000, journal := [(60000, Skipped)]\<rparr>"
  by (simp add: stale_world_def run_def waiting_world_def [symmetric])
     (simp add: waiting_world_eval example_world_def boot_def elapse_def timer_callback_def
        invalidate_def)

text \<open>
  Claim C6, where the code departs from it. A request arrives while no context is
  attached; its timer fires after 60000 ms. The callback runs \<open>invalidate\<close>, which
  returns at the context check: the handle and the buffer are not cleared. The next
  request, which brings the context, arms no timer, and no sweep follows.
\<close>

theorem expiry_without_context_keeps_handle:
  "cacheContext (invalidator (snd (purgeTags request_no_context example_world))) = None \<and>
   timers (snd (purgeTags request_no_context example_world)) = [(Timeout 0, 60000)] \<and>
   journal stale_world = [(60000, Skipped)] \<and>
   timeout (invalidator stale_world) = Some (Timeout 0) \<and>
   tags (invalidator stale_world) = [''t1''] \<and>
   timers stale_world = [] \<and>
   cacheContext (invalidator (step (Request request_t1) stale_world)) = Some 0 \<and>
   timers (step (Request request_t1) stale_world) = [] \<and>
   journal (run [Request request_t1, Elapse 60000] stale_world) = [(60000, Skipped)]"
  by (simp add: stale_world_eval waiting_world_def [symmetric])
     (simp add: waiting_world_eval example_world_def request_t1_def eval_defs)

text \<open>
  Against claim C4 as stated: a request with an empty array is answered with the
  confirmation and arms a timer, and so does \<open>add\<close> with an empty list.
\<close>

theorem empty_tag_list_rejected_counterexample:
  "payload request_empty = Array [] \<and>
   fst (purgeTags request_empty example_world) = Inr (Response ''OK'' []) \<and>
   timers example_world = [] \<and>
   timers (snd (purgeTags request_empty example_world)) = [(Timeout 0, 60000)] \<and>
   timeout (invalidator (snd (purgeTags request_empty example_world))) = Some (Timeout 0) \<and>
   timers (add [] example_world) = [(Timeout 0, 1)]"
  by (simp add: request_empty_def example_world_def eval_defs)

text \<open>
  Claim C4, as amended. A request that passed the authorization check and whose body is
  not an array (null, absent or any other value) is rejected with status 400 and
  changes nothing. A request with an empty array is accepted: it returns the confirmation
  with the empty list and calls \<open>add\<close> with it. \<open>add\<close> with an empty list leaves
  the buffer as it is; it arms a timer when no handle is stored, and otherwise changes
  nothing at all.
\<close>

theorem non_array_payload_rejected:
  assumes "auth ev = None"
  shows "((\<forall>ts. payload ev \<noteq> Array ts) \<longrightarrow>
            purgeTags ev w = (Inl (H3Error 400 ''No valid tags provided.''), w)) \<and>
         (payload ev = Array [] \<longrightarrow>
            purgeTags ev w = (Inr (Response ''OK'' []), add [] (with_context ev w))) \<and>
         add [] w =
           (if timeout (invalidator w) = None
            then w\<lparr>timers := timers w @ [(Timeout (next_id w), clock w + timeout_ms (delay (invalidator w)))],
                   next_id := Suc (next_id w),
                   invalidator := (invalidator w)\<lparr>timeout := Some (Timeout (next_id w))\<rparr>\<rparr>
            else w)"
proof -
  have "purgeTags ev w = (Inl (H3Error 400 ''No valid tags provided.''), w)"
    if "\<forall>ts. payload ev \<noteq> Array ts"
    using that assms by (cases "payload ev") (simp_all add: purgeTags_def getTagsToPurge_def)
  moreover have "purgeTags ev w = (Inr (Response ''OK'' []), add [] (with_context ev w))"
    if "payload ev = Array []"
    using that assms by (simp add: purgeTags_def getTagsToPurge_def with_context_def Let_def)
  moreover have "add [] w =
           (if timeout (invalidator w) = None
            then w\<lparr>timers := timers w @ [(Timeout (next_id w), clock w + timeout_ms (delay (invalidator w)))],
                   next_id := Suc (next_id w),
                   invalidator := (invalidator w)\<lparr>timeout := Some (Timeout (next_id w))\<rparr>\<rparr>
            else w)"
    by (auto simp: add_def setTimeout_def Let_def)
  ultimately show ?thesis
    by blast
qed

theorem non_array_payload_rejected_witness:
  "auth request_null = None \<and> payload request_null = Null \<and>
   purgeTags request_null world_t1 = (Inl (H3Error 400 ''No valid tags provided.''), world_t1) \<and>
   auth request_empty = None \<and> payload request_empty = Array [] \<and>
   purgeTags request_empty world_t1 = (Inr (Response ''OK'' []), add [] (with_context request_empty world_t1)) \<and>
   timeout (invalidator world_t1) = Some (Timeout 0) \<and>
   add [] world_t1 = world_t1 \<and>
   timeout (invalidator example_world) = None \<and>
   timers (add [] example_world) = [(Timeout 0, 1)]"
proof -
  have 1: "auth request_null = None" and 2: "payload request_null = Null"
    and 3: "auth request_empty = None" and 4: "payload request_empty = Array []"
    by (simp_all add: request_null_def request_empty_def)
  have 5: "timeout (invalidator world_t1) = Some (Timeout 0)"
    by (simp add: world_t1_eval)
  have 6: "timeout (invalidator example_world) = None" "timers example_world = []"
    "next_id example_world = 0" "clock example_world = 0" "delay (invalidator example_world) = None"
    by (simp_all add: example_world_def boot_def new_invalidator_def)
  from non_array_payload_rejected [OF 1, of world_t1] 2
  have a: "purgeTags request_null world_t1 = (Inl (H3Error 400 ''No valid tags provided.''), world_t1)"
    and b: "add [] world_t1 = world_t1"
    by (simp_all add: 5)
  from non_array_payload_rejected [OF 3, of world_t1] 4
  have c: "purgeTags request_empty world_t1 = (Inr (Response ''OK'' []), add [] (with_context request_empty world_t1))"
    by simp
  from non_array_payload_rejected [OF 3, of example_world]
  have "add [] example_world =
      example_world\<lparr>timers := [(Timeout 0, 1)], next_id := Suc 0,
        invalidator := (invalidator example_world)\<lparr>timeout := Some (Timeout 0)\<rparr>\<rparr>"
    by (simp add: 6 timeout_ms_def)
  then have d: "timers (add [] example_world) = [(Timeout 0, 1)]"
    by simp
  from 1 2 3 4 5 6(1) a b c d show ?thesis
    by simp
qed

text \<open>
  Claim C5, where the code departs from it. A single tag, sent as a string body or as
  a router parameter, is not accepted: the handler reads the body only and answers
  anything but an array with status 400. An array is confirmed with its tags.
\<close>

theorem single_tag_rejected:
  "payload request_single = String ''t1'' \<and>
   purgeTags request_single example_world =
     (Inl (H3Error 400 ''No valid tags provided.''), example_world) \<and>
   params request_param_only = [(''tag'', ''t1'')] \<and>
   purgeTags request_param_only example_world =
     (Inl (H3Error 400 ''No valid tags provided.''), example_world) \<and>
   fst (purgeTags request_t1 example_world) = Inr (Response ''OK'' [''t1''])"
  by (simp add: request_single_def request_param_only_def request_t1_def purgeTags_def
      getTagsToPurge_def)

end
